theory Spec2Isabelle
  imports Complex_Main "HOL-Library.Char_ord" "HOL-Library.List_Lexorder"
begin

section \<open>Record deduplication and reference resolution of the drift SLR tooling\<close>

text \<open>
  The development embeds three parts of the repository and of the Python library it calls:
  \<^item> \<^verbatim>\<open>scripts/deduplicate_papers.py\<close>: \<^verbatim>\<open>normalize_string\<close>, \<^verbatim>\<open>normalize_authors\<close>,
    \<^verbatim>\<open>title_similarity\<close>, \<^verbatim>\<open>are_duplicates\<close> and \<^verbatim>\<open>deduplicate_papers\<close>;
  \<^item> \<^verbatim>\<open>difflib.SequenceMatcher(None, a, b).ratio()\<close> of the Python standard library, which
    \<^verbatim>\<open>title_similarity\<close> calls (\<^verbatim>\<open>__chain_b\<close>, \<^verbatim>\<open>find_longest_match\<close>,
    \<^verbatim>\<open>get_matching_blocks\<close>, \<^verbatim>\<open>ratio\<close>);
  \<^item> \<^verbatim>\<open>scripts/build_website.py\<close>: the body of the loop over reference entries in
    \<^verbatim>\<open>load_reference_map\<close>, from the point where the quoted title has been extracted.

  A Python \<^verbatim>\<open>str\<close> is modelled as a \<^typ>\<open>string\<close> whose characters are the code points
  U+0000 to U+00FF; the character classes below are those of Python 3 on that range.
  The float returned by \<^verbatim>\<open>ratio\<close> is modelled by the exact rational \<open>2 * M / T\<close>.
\<close>

subsection \<open>Strings: character classes, \<^verbatim>\<open>lower\<close>, \<^verbatim>\<open>strip\<close> and the two substitutions\<close>

text \<open>
  \<open>isspace\<close> is \<^verbatim>\<open>str.isspace\<close> and the regex class \<^verbatim>\<open>\s\<close>: code points 9-13, 28-32,
  133 and 160. \<open>isalnum\<close> is \<^verbatim>\<open>str.isalnum\<close>; the regex class \<^verbatim>\<open>\w\<close> is \<open>isalnum\<close> plus
  the underscore (\<open>is_word\<close>). \<open>lower_char\<close> is \<^verbatim>\<open>str.lower\<close> on one character: A-Z,
  U+00C0-U+00D6 and U+00D8-U+00DE move up by 32, every other character stays.
  \<open>sub_special\<close> is \<^verbatim>\<open>re.sub(r'[^\w\s]', ' ', s)\<close> and \<open>sub_spaces\<close> is
  \<^verbatim>\<open>re.sub(r'\s+', ' ', s)\<close>: every maximal run of whitespace becomes one space.
  \<open>normalize_string\<close> takes \<open>None\<close> for an absent value; \<^verbatim>\<open>if not s\<close> returns the empty
  string for \<open>None\<close> and for the empty string.
\<close>

definition isspace :: "char \<Rightarrow> bool" where
  "isspace c = (let n = (of_char c :: nat) in
     (9 \<le> n \<and> n \<le> 13) \<or> (28 \<le> n \<and> n \<le> 32) \<or> n = 133 \<or> n = 160)"

definition isalnum :: "char \<Rightarrow> bool" where
  "isalnum c = (let n = (of_char c :: nat) in
     (48 \<le> n \<and> n \<le> 57) \<or> (65 \<le> n \<and> n \<le> 90) \<or> (97 \<le> n \<and> n \<le> 122) \<or>
     n = 170 \<or> n = 178 \<or> n = 179 \<or> n = 181 \<or> n = 185 \<or> n = 186 \<or>
     (188 \<le> n \<and> n \<le> 190) \<or> (192 \<le> n \<and> n \<le> 214) \<or>
     (216 \<le> n \<and> n \<le> 246) \<or> 248 \<le> n)"

definition is_word :: "char \<Rightarrow> bool" where
  "is_word c = (isalnum c \<or> c = CHR ''_'')"

definition lower_char :: "char \<Rightarrow> char" where
  "lower_char c = (let n = (of_char c :: nat) in
     if (65 \<le> n \<and> n \<le> 90) \<or> (192 \<le> n \<and> n \<le> 214) \<or> (216 \<le> n \<and> n \<le> 222)
     then char_of (n + 32) else c)"

definition lower :: "string \<Rightarrow> string" where
  "lower s = map lower_char s"

definition strip :: "string \<Rightarrow> string" where
  "strip s = rev (dropWhile isspace (rev (dropWhile isspace s)))"

definition sub_special :: "string \<Rightarrow> string" where
  "sub_special s = map (\<lambda>c. if is_word c \<or> isspace c then c else CHR '' '') s"

function sub_spaces :: "string \<Rightarrow> string" where
  "sub_spaces [] = []"
| "sub_spaces (c # cs) =
     (if isspace c then CHR '' '' # sub_spaces (dropWhile isspace cs)
      else c # sub_spaces cs)"
  by pat_completeness auto
termination
  by (relation "measure length") (auto simp: length_dropWhile_le le_imp_less_Suc)

fun normalize_string :: "string option \<Rightarrow> string" where
  "normalize_string None = []"
| "normalize_string (Some s) =
     (if s = [] then [] else strip (sub_spaces (sub_special (lower s))))"

subsection \<open>\<^verbatim>\<open>difflib.SequenceMatcher\<close>: the index of \<open>b\<close> and the longest match\<close>

text \<open>
  \<open>chain_b_index\<close> is the first loop of \<^verbatim>\<open>__chain_b\<close>: \<open>b2j\<close> maps every element of \<open>b\<close>
  to the ascending list of its positions. \<open>chain_b\<close> then removes the popular elements
  (\<^verbatim>\<open>autojunk\<close> is on by default): when \<open>b\<close> has at least 200 elements, every element with
  more than \<open>n div 100 + 1\<close> positions loses its entry. \<^verbatim>\<open>isjunk\<close> is \<open>None\<close>, so the set
  \<^verbatim>\<open>bjunk\<close> is empty and \<open>isbjunk\<close> is constantly false.

  \<open>find_longest_match\<close> follows the source: \<open>outer_loop\<close> and \<open>inner_loop\<close> are the two
  nested \<^verbatim>\<open>for\<close> loops over \<open>i\<close> and over the positions \<open>j\<close> of \<open>a[i]\<close> in \<open>b\<close> (with the
  \<^verbatim>\<open>continue\<close> for \<open>j < blo\<close> and the \<^verbatim>\<open>break\<close> for \<open>j \<ge> bhi\<close>); \<open>j2lenget j2len j\<close> is
  \<^verbatim>\<open>j2len.get(j-1, 0)\<close>, where the key \<open>-1\<close> of \<open>j = 0\<close> is never present; \<open>extend_left\<close>
  and \<open>extend_right\<close> are the four \<^verbatim>\<open>while\<close> loops, first over elements that are not junk,
  then over junk ones. Indices are natural numbers: \<open>i + 1 - k\<close> is the source's
  \<open>i-k+1\<close>, which is never negative (\<open>inner_loop_bounds\<close> below).
\<close>

type_synonym block = "nat \<times> nat \<times> nat"

definition chain_b_index :: "'a list \<Rightarrow> ('a \<rightharpoonup> nat list)" where
  "chain_b_index b =
     fold (\<lambda>(i, elt) b2j. b2j(elt \<mapsto> (case b2j elt of None \<Rightarrow> [] | Some indices \<Rightarrow> indices) @ [i]))
       (enumerate 0 b) Map.empty"

definition chain_b :: "'a list \<Rightarrow> ('a \<rightharpoonup> nat list)" where
  "chain_b b =
     (let b2j = chain_b_index b; n = length b in
      if n \<ge> 200 then
        (let ntest = n div 100 + 1 in
         (\<lambda>elt. case b2j elt of None \<Rightarrow> None
            | Some idxs \<Rightarrow> if length idxs > ntest then None else Some idxs))
      else b2j)"

definition isbjunk :: "'a \<Rightarrow> bool" where
  "isbjunk x = False"

definition j2lenget :: "(nat \<rightharpoonup> nat) \<Rightarrow> nat \<Rightarrow> nat" where
  "j2lenget j2len j = (if j = 0 then 0 else case j2len (j - 1) of None \<Rightarrow> 0 | Some v \<Rightarrow> v)"

fun inner_loop :: "nat \<Rightarrow> nat \<Rightarrow> nat \<Rightarrow> (nat \<rightharpoonup> nat) \<Rightarrow> nat list \<Rightarrow>
    (nat \<rightharpoonup> nat) \<times> block \<Rightarrow> (nat \<rightharpoonup> nat) \<times> block" where
  "inner_loop i blo bhi j2len [] st = st"
| "inner_loop i blo bhi j2len (j # js) (newj2len, besti, bestj, bestsize) =
     (if j < blo then inner_loop i blo bhi j2len js (newj2len, besti, bestj, bestsize)
      else if j \<ge> bhi then (newj2len, besti, bestj, bestsize)
      else (let k = j2lenget j2len j + 1 in
        if k > bestsize
        then inner_loop i blo bhi j2len js (newj2len(j \<mapsto> k), i + 1 - k, j + 1 - k, k)
        else inner_loop i blo bhi j2len js (newj2len(j \<mapsto> k), besti, bestj, bestsize)))"

fun outer_loop :: "'a list \<Rightarrow> ('a \<rightharpoonup> nat list) \<Rightarrow> nat \<Rightarrow> nat \<Rightarrow> nat list \<Rightarrow>
    (nat \<rightharpoonup> nat) \<times> block \<Rightarrow> block" where
  "outer_loop a b2j blo bhi [] (j2len, best) = best"
| "outer_loop a b2j blo bhi (i # is) (j2len, best) =
     outer_loop a b2j blo bhi is
       (inner_loop i blo bhi j2len (case b2j (a ! i) of None \<Rightarrow> [] | Some js \<Rightarrow> js)
          (Map.empty, best))"

function extend_left :: "'a list \<Rightarrow> 'a list \<Rightarrow> nat \<Rightarrow> nat \<Rightarrow> ('a \<Rightarrow> bool) \<Rightarrow> block \<Rightarrow> block" where
  "extend_left a b alo blo P (besti, bestj, bestsize) =
     (if besti > alo \<and> bestj > blo \<and> P (b ! (bestj - 1)) \<and> a ! (besti - 1) = b ! (bestj - 1)
      then extend_left a b alo blo P (besti - 1, bestj - 1, bestsize + 1)
      else (besti, bestj, bestsize))"
  by pat_completeness auto
termination
  by (relation "measure (\<lambda>(a, b, alo, blo, P, besti, bestj, bestsize). besti)") auto

function extend_right :: "'a list \<Rightarrow> 'a list \<Rightarrow> nat \<Rightarrow> nat \<Rightarrow> ('a \<Rightarrow> bool) \<Rightarrow> block \<Rightarrow> block" where
  "extend_right a b ahi bhi P (besti, bestj, bestsize) =
     (if besti + bestsize < ahi \<and> bestj + bestsize < bhi \<and> P (b ! (bestj + bestsize)) \<and>
         a ! (besti + bestsize) = b ! (bestj + bestsize)
      then extend_right a b ahi bhi P (besti, bestj, bestsize + 1)
      else (besti, bestj, bestsize))"
  by pat_completeness auto
termination
  by (relation "measure (\<lambda>(a, b, ahi, bhi, P, besti, bestj, bestsize). ahi - (besti + bestsize))") auto

definition find_longest_match ::
    "'a list \<Rightarrow> 'a list \<Rightarrow> ('a \<rightharpoonup> nat list) \<Rightarrow> nat \<Rightarrow> nat \<Rightarrow> nat \<Rightarrow> nat \<Rightarrow> block" where
  "find_longest_match a b b2j alo ahi blo bhi =
     extend_right a b ahi bhi isbjunk
       (extend_left a b alo blo isbjunk
         (extend_right a b ahi bhi (\<lambda>x. \<not> isbjunk x)
           (extend_left a b alo blo (\<lambda>x. \<not> isbjunk x)
             (outer_loop a b2j blo bhi [alo..<ahi] (Map.empty, alo, blo, 0)))))"

subsection \<open>The match returned lies inside the window\<close>

text \<open>
  The block \<open>(i, j, k)\<close> that \<open>find_longest_match\<close> returns for the window \<open>alo..ahi\<close>
  starts at or after \<open>alo\<close> and, when it is not empty, ends at or before \<open>ahi\<close>. The loop of
  \<^verbatim>\<open>get_matching_blocks\<close> terminates for this reason.
\<close>

lemma inner_loop_bounds:
  assumes "alo \<le> i" "\<forall>j v. j2len j = Some v \<longrightarrow> v \<le> i - alo"
      and "alo \<le> besti" "besti + bestsize \<le> i + 1"
      and "inner_loop i blo bhi j2len js (newj2len, besti, bestj, bestsize) = (n', bi', bj', bs')"
      and "\<forall>j v. newj2len j = Some v \<longrightarrow> v \<le> i + 1 - alo"
  shows "alo \<le> bi' \<and> bi' + bs' \<le> i + 1 \<and> (\<forall>j v. n' j = Some v \<longrightarrow> v \<le> i + 1 - alo)"
  using assms
proof (induction js arbitrary: newj2len besti bestj bestsize)
  case Nil
  then show ?case by simp
next
  case (Cons j js)
  have k: "j2lenget j2len j + 1 \<le> i + 1 - alo"
    using Cons.prems(1,2) by (auto simp: j2lenget_def split: option.splits) (metis Suc_diff_le Suc_le_mono)
  show ?case
  proof (cases "j < blo")
    case True
    with Cons show ?thesis by simp
  next
    case nb: False
    show ?thesis
    proof (cases "j \<ge> bhi")
      case True
      with nb Cons.prems show ?thesis by simp
    next
      case False
      let ?k = "j2lenget j2len j + 1"
      have new: "\<forall>j' v. (newj2len(j \<mapsto> ?k)) j' = Some v \<longrightarrow> v \<le> i + 1 - alo"
        using k Cons.prems(6) by auto
      show ?thesis
      proof (cases "?k > bestsize")
        case True
        have "inner_loop i blo bhi j2len js (newj2len(j \<mapsto> ?k), i + 1 - ?k, j + 1 - ?k, ?k) = (n', bi', bj', bs')"
          using Cons.prems(5) nb False True by (simp add: Let_def)
        moreover have "alo \<le> i + 1 - ?k" using k Cons.prems(1) by linarith
        moreover have "i + 1 - ?k + ?k \<le> i + 1" using k by linarith
        ultimately show ?thesis
          using Cons.IH[OF Cons.prems(1,2) _ _ _ new] by blast
      next
        case nk: False
        have "inner_loop i blo bhi j2len js (newj2len(j \<mapsto> ?k), besti, bestj, bestsize) = (n', bi', bj', bs')"
          using Cons.prems(5) nb False nk by (simp add: Let_def)
        then show ?thesis
          using Cons.IH[OF Cons.prems(1,2,3,4) _ new] by blast
      qed
    qed
  qed
qed

lemma outer_loop_bounds:
  assumes "alo \<le> m" "m \<le> ahi" "\<forall>j v. j2len j = Some v \<longrightarrow> v \<le> m - alo"
      and "alo \<le> besti" "besti + bestsize \<le> m"
      and "outer_loop a b2j blo bhi [m..<ahi] (j2len, besti, bestj, bestsize) = (bi', bj', bs')"
  shows "alo \<le> bi' \<and> bi' + bs' \<le> ahi"
  using assms
proof (induction "ahi - m" arbitrary: m j2len besti bestj bestsize)
  case 0
  then show ?case by simp
next
  case (Suc d)
  then have lt: "m < ahi" by simp
  obtain n1 b1 j1 s1 where il: "inner_loop m blo bhi j2len (case b2j (a ! m) of None \<Rightarrow> [] | Some js \<Rightarrow> js)
          (Map.empty, besti, bestj, bestsize) = (n1, b1, j1, s1)"
    by (metis prod_cases4)
  have inv: "alo \<le> b1 \<and> b1 + s1 \<le> m + 1 \<and> (\<forall>j v. n1 j = Some v \<longrightarrow> v \<le> m + 1 - alo)"
    by (rule inner_loop_bounds[OF Suc.prems(1) Suc.prems(3) Suc.prems(4) _ il]) (use Suc.prems(5) in auto)
  have "outer_loop a b2j blo bhi [Suc m..<ahi] (n1, b1, j1, s1) = (bi', bj', bs')"
    using Suc.prems(6) lt il by (simp add: upt_conv_Cons)
  moreover have "d = ahi - Suc m" using Suc.hyps(2) by simp
  ultimately show ?case
    using Suc.hyps(1)[of "Suc m" n1 b1 s1 j1] inv Suc.prems(1) lt by auto
qed

lemma extend_left_bounds:
  "extend_left a b alo blo P (besti, bestj, bestsize) = (bi', bj', bs') \<Longrightarrow>
   alo \<le> besti \<Longrightarrow> alo \<le> bi' \<and> bi' + bs' = besti + bestsize"
proof (induction a b alo blo P "(besti, bestj, bestsize)" arbitrary: besti bestj bestsize rule: extend_left.induct)
  case (1 a b alo blo P besti bestj bestsize)
  show ?case
  proof (cases "besti > alo \<and> bestj > blo \<and> P (b ! (bestj - 1)) \<and> a ! (besti - 1) = b ! (bestj - 1)")
    case True
    then have "extend_left a b alo blo P (besti - 1, bestj - 1, bestsize + 1) = (bi', bj', bs')"
      using "1.prems"(1) by (subst (asm) extend_left.simps) simp
    from "1.hyps"[OF True this] True show ?thesis by auto
  next
    case False
    then show ?thesis using "1.prems" by (subst (asm) extend_left.simps) auto
  qed
qed

lemma extend_right_bounds:
  "extend_right a b ahi bhi P (besti, bestj, bestsize) = (bi', bj', bs') \<Longrightarrow>
   besti + bestsize \<le> ahi \<Longrightarrow> bi' = besti \<and> bi' + bs' \<le> ahi"
proof (induction a b ahi bhi P "(besti, bestj, bestsize)" arbitrary: besti bestj bestsize rule: extend_right.induct)
  case (1 a b ahi bhi P besti bestj bestsize)
  show ?case
  proof (cases "besti + bestsize < ahi \<and> bestj + bestsize < bhi \<and> P (b ! (bestj + bestsize)) \<and>
         a ! (besti + bestsize) = b ! (bestj + bestsize)")
    case True
    then have "extend_right a b ahi bhi P (besti, bestj, bestsize + 1) = (bi', bj', bs')"
      using "1.prems"(1) by (subst (asm) extend_right.simps) simp
    from "1.hyps"[OF True this] True show ?thesis by auto
  next
    case False
    then show ?thesis using "1.prems" by (subst (asm) extend_right.simps) auto
  qed
qed

declare extend_left.simps [simp del] extend_right.simps [simp del]

lemma find_longest_match_bounds:
  assumes "find_longest_match a b b2j alo ahi blo bhi = (i, j, k)"
  shows "alo \<le> i \<and> (k \<noteq> 0 \<longrightarrow> i + k \<le> ahi)"
proof (cases "alo \<le> ahi")
  case True
  obtain i0 j0 k0 where o: "outer_loop a b2j blo bhi [alo..<ahi] (Map.empty, alo, blo, 0) = (i0, j0, k0)"
    by (metis prod_cases3)
  have b0: "alo \<le> i0 \<and> i0 + k0 \<le> ahi"
    by (rule outer_loop_bounds[OF _ True _ _ _ o]) auto
  obtain i1 j1 k1 where e1: "extend_left a b alo blo (\<lambda>x. \<not> isbjunk x) (i0, j0, k0) = (i1, j1, k1)"
    by (metis prod_cases3)
  have b1: "alo \<le> i1 \<and> i1 + k1 \<le> ahi"
    using extend_left_bounds[OF e1] b0 by auto
  obtain i2 j2 k2 where e2: "extend_right a b ahi bhi (\<lambda>x. \<not> isbjunk x) (i1, j1, k1) = (i2, j2, k2)"
    by (metis prod_cases3)
  have b2: "alo \<le> i2 \<and> i2 + k2 \<le> ahi"
    using extend_right_bounds[OF e2] b1 by auto
  obtain i3 j3 k3 where e3: "extend_left a b alo blo isbjunk (i2, j2, k2) = (i3, j3, k3)"
    by (metis prod_cases3)
  have b3: "alo \<le> i3 \<and> i3 + k3 \<le> ahi"
    using extend_left_bounds[OF e3] b2 by auto
  have e4: "extend_right a b ahi bhi isbjunk (i3, j3, k3) = (i, j, k)"
    using assms o e1 e2 e3 by (simp add: find_longest_match_def)
  show ?thesis using extend_right_bounds[OF e4] b3 by auto
next
  case False
  then have "find_longest_match a b b2j alo ahi blo bhi = (alo, blo, 0)"
    by (simp add: find_longest_match_def extend_left.simps extend_right.simps)
  with assms show ?thesis by simp
qed

subsection \<open>\<^verbatim>\<open>get_matching_blocks\<close> and \<^verbatim>\<open>ratio\<close>\<close>

text \<open>
  \<open>blocks_loop\<close> is the \<^verbatim>\<open>while queue\<close> loop. The Python list \<^verbatim>\<open>queue\<close> is used as a stack
  (\<^verbatim>\<open>pop()\<close> takes the last element); the model keeps it with the last element first, so
  the window pushed second (the right one) is the next one taken. \<open>sort_blocks\<close> is
  \<^verbatim>\<open>matching_blocks.sort()\<close> on triples, \<open>collapse_loop\<close> the loop merging adjacent blocks,
  and \<open>calculate_ratio\<close> is \<^verbatim>\<open>_calculate_ratio\<close>.
\<close>

type_synonym range4 = "nat \<times> nat \<times> nat \<times> nat"

definition queue_weight :: "range4 list \<Rightarrow> nat" where
  "queue_weight queue = sum_list (map (\<lambda>(alo, ahi, blo, bhi). 2 * (ahi - alo) + 1) queue)"

function blocks_loop :: "'a list \<Rightarrow> 'a list \<Rightarrow> ('a \<rightharpoonup> nat list) \<Rightarrow> range4 list \<Rightarrow> block list \<Rightarrow> block list" where
  "blocks_loop a b b2j [] matching_blocks = matching_blocks"
| "blocks_loop a b b2j ((alo, ahi, blo, bhi) # queue) matching_blocks =
     (case find_longest_match a b b2j alo ahi blo bhi of (i, j, k) \<Rightarrow>
        if k \<noteq> 0 then
          blocks_loop a b b2j
            ((if i + k < ahi \<and> j + k < bhi then [(i + k, ahi, j + k, bhi)] else []) @
             (if alo < i \<and> blo < j then [(alo, i, blo, j)] else []) @ queue)
            (matching_blocks @ [(i, j, k)])
        else blocks_loop a b b2j queue matching_blocks)"
  by pat_completeness auto
termination
  apply (relation "measure (\<lambda>(a, b, b2j, queue, mb). queue_weight queue)")
  apply simp
    apply (auto simp: queue_weight_def dest!: find_longest_match_bounds[OF sym])
  done

fun block_le :: "block \<Rightarrow> block \<Rightarrow> bool" where
  "block_le (i1, j1, k1) (i2, j2, k2) =
     (i1 < i2 \<or> (i1 = i2 \<and> (j1 < j2 \<or> (j1 = j2 \<and> k1 \<le> k2))))"

fun insert_block :: "block \<Rightarrow> block list \<Rightarrow> block list" where
  "insert_block x [] = [x]"
| "insert_block x (y # ys) = (if block_le x y then x # y # ys else y # insert_block x ys)"

fun sort_blocks :: "block list \<Rightarrow> block list" where
  "sort_blocks [] = []"
| "sort_blocks (x # xs) = insert_block x (sort_blocks xs)"

fun collapse_loop :: "block list \<Rightarrow> block \<Rightarrow> block list \<Rightarrow> block list" where
  "collapse_loop [] (i1, j1, k1) non_adjacent =
     (if k1 \<noteq> 0 then non_adjacent @ [(i1, j1, k1)] else non_adjacent)"
| "collapse_loop ((i2, j2, k2) # rest) (i1, j1, k1) non_adjacent =
     (if i1 + k1 = i2 \<and> j1 + k1 = j2 then collapse_loop rest (i1, j1, k1 + k2) non_adjacent
      else collapse_loop rest (i2, j2, k2)
             (if k1 \<noteq> 0 then non_adjacent @ [(i1, j1, k1)] else non_adjacent))"

definition get_matching_blocks :: "'a list \<Rightarrow> 'a list \<Rightarrow> block list" where
  "get_matching_blocks a b =
     (let la = length a; lb = length b;
          matching_blocks = sort_blocks (blocks_loop a b (chain_b b) [(0, la, 0, lb)] [])
      in collapse_loop matching_blocks (0, 0, 0) [] @ [(la, lb, 0)])"

definition calculate_ratio :: "nat \<Rightarrow> nat \<Rightarrow> rat" where
  "calculate_ratio matches len = (if len \<noteq> 0 then 2 * of_nat matches / of_nat len else 1)"

definition ratio :: "'a list \<Rightarrow> 'a list \<Rightarrow> rat" where
  "ratio a b =
     calculate_ratio (sum_list (map (\<lambda>(i, j, k). k) (get_matching_blocks a b))) (length a + length b)"

subsection \<open>\<^verbatim>\<open>deduplicate_papers.py\<close>: records, the classifier and the deduplicator\<close>

text \<open>
  A paper is the dictionary read from the search export; the three keys the classifier
  reads are fields, \<open>None\<close> standing for a missing key or a JSON null. An author entry is
  a dictionary (its \<^verbatim>\<open>name\<close> may be missing) or a plain string. \<open>truthy\<close> is Python's truth
  value of an optional string. \<open>join\<close> and \<open>split\<close> are \<^verbatim>\<open>str.join\<close> and \<^verbatim>\<open>str.split\<close> with
  a separator; \<open>sort\<close> on strings is the code point order.
  \<open>doi_key\<close> is the expression \<^verbatim>\<open>paper.get('doi', '').strip().lower() if paper.get('doi') else ''\<close>.
  \<open>scan_unique\<close> is the inner loop of \<^verbatim>\<open>deduplicate_papers\<close> with its \<^verbatim>\<open>break\<close>, called with
  the default threshold 0.85; \<open>dedup_loop\<close> is the outer loop.
\<close>

datatype author = AuthorDict "string option" | AuthorStr string

record paper =
  doi :: "string option"
  title :: "string option"
  authors :: "author list option"

fun author_name :: "author \<Rightarrow> string option" where
  "author_name (AuthorDict name) = name"
| "author_name (AuthorStr s) = Some s"

fun join :: "string \<Rightarrow> string list \<Rightarrow> string" where
  "join sep [] = []"
| "join sep [x] = x"
| "join sep (x # y # ys) = x @ sep @ join sep (y # ys)"

fun split :: "char \<Rightarrow> string \<Rightarrow> string list" where
  "split sep [] = [[]]"
| "split sep (c # cs) =
     (if c = sep then [] # split sep cs
      else (case split sep cs of [] \<Rightarrow> [[c]] | w # ws \<Rightarrow> (c # w) # ws))"

definition truthy :: "string option \<Rightarrow> bool" where
  "truthy s = (case s of None \<Rightarrow> False | Some x \<Rightarrow> x \<noteq> [])"

fun author_names :: "author list \<Rightarrow> string list" where
  "author_names [] = []"
| "author_names (author # rest) =
     (let name = author_name author in
      if truthy name then normalize_string name # author_names rest else author_names rest)"

definition normalize_authors :: "author list option \<Rightarrow> string" where
  "normalize_authors auths =
     (case auths of None \<Rightarrow> [] | Some [] \<Rightarrow> []
      | Some as \<Rightarrow> join ''|'' (sort (author_names as)))"

definition title_similarity :: "string option \<Rightarrow> string option \<Rightarrow> rat" where
  "title_similarity title1 title2 =
     (let t1 = normalize_string title1; t2 = normalize_string title2 in
      if t1 = [] \<or> t2 = [] then 0 else ratio t1 t2)"

definition doi_key :: "paper \<Rightarrow> string" where
  "doi_key p = (if truthy (doi p) then lower (strip (the (doi p))) else [])"

definition are_duplicates :: "paper \<Rightarrow> paper \<Rightarrow> rat \<Rightarrow> bool" where
  "are_duplicates paper1 paper2 similarity_threshold =
     (let doi1 = doi_key paper1; doi2 = doi_key paper2 in
      if doi1 \<noteq> [] \<and> doi2 \<noteq> [] \<and> doi1 = doi2 then True
      else if \<not> truthy (title paper1) \<or> \<not> truthy (title paper2) then False
      else
        (let sim = title_similarity (title paper1) (title paper2) in
         if sim \<ge> similarity_threshold then
           (let authors1 = normalize_authors (authors paper1);
                authors2 = normalize_authors (authors paper2) in
            if authors1 \<noteq> [] \<and> authors2 \<noteq> [] then
              (let auth1_set = set (split CHR ''|'' authors1);
                   auth2_set = set (split CHR ''|'' authors2) in
               if auth1_set \<noteq> {} \<and> auth2_set \<noteq> {} then
                 (let overlap = card (auth1_set \<inter> auth2_set);
                      min_authors = min (card auth1_set) (card auth2_set) in
                  if (of_nat overlap :: rat) / of_nat min_authors \<ge> 1 / 2 then True else False)
               else False)
            else (if sim \<ge> 95 / 100 then True else False))
         else False))"

fun scan_unique :: "paper \<Rightarrow> paper list \<Rightarrow> bool" where
  "scan_unique p [] = False"
| "scan_unique p (unique_paper # rest) =
     (if are_duplicates p unique_paper (85 / 100) then True else scan_unique p rest)"

fun dedup_loop :: "paper list \<Rightarrow> paper list \<times> nat \<Rightarrow> paper list \<times> nat" where
  "dedup_loop [] st = st"
| "dedup_loop (p # ps) (unique_papers, duplicate_count) =
     (if scan_unique p unique_papers then dedup_loop ps (unique_papers, duplicate_count + 1)
      else dedup_loop ps (unique_papers @ [p], duplicate_count))"

definition deduplicate_papers :: "paper list \<Rightarrow> paper list \<times> nat" where
  "deduplicate_papers all_papers = dedup_loop all_papers ([], 0)"

subsection \<open>\<^verbatim>\<open>build_website.py\<close>: resolving one reference entry\<close>

text \<open>
  \<open>resolve_reference\<close> is the body of \<^verbatim>\<open>for ref_id, ref_text in ref_entries\<close> in
  \<^verbatim>\<open>load_reference_map\<close>. Its first argument is \<^verbatim>\<open>title_match\<close>: the title found between
  quotation marks by the two \<^verbatim>\<open>re.search\<close> calls, or \<open>None\<close>. Its result is the link stored
  in \<^verbatim>\<open>ref_link_map\<close>, or \<open>None\<close> when the reference stays unlinked.

  A row of \<^verbatim>\<open>csv.DictReader\<close> maps a column name to a cell; the cell of a short line is
  Python's \<open>None\<close>, on which \<^verbatim>\<open>.lower()\<close> and \<^verbatim>\<open>.strip()\<close> raise \<^verbatim>\<open>AttributeError\<close>.
  \<^verbatim>\<open>str.isdigit\<close> accepts the superscript digits U+00B2, U+00B3 and U+00B9, on which
  \<^verbatim>\<open>int\<close> raises \<^verbatim>\<open>ValueError\<close>. \<open>pdf_map\<close> is the dictionary from paper numbers to file
  names in insertion order. \<open>contains s sub\<close> is Python's \<^verbatim>\<open>sub in s\<close>.
  \<open>check_row\<close> is the body of the loop over \<^verbatim>\<open>included_papers\<close>: \<open>Inr (Some f)\<close> when the
  loop breaks with \<^verbatim>\<open>target_pdf = f\<close>, \<open>Inr None\<close> when it goes on to the next row.
  \<open>csv_loop\<close> is the loop over \<^verbatim>\<open>csv_papers\<close>, whose body is \<^verbatim>\<open>pass\<close>.
  \<open>split_nonword\<close> is \<^verbatim>\<open>re.split(r"\W+", s)\<close>; \<open>pdf_loop\<close> is the loop over
  \<^verbatim>\<open>pdf_map.items()\<close>, and \<open>improves\<close> its test \<^verbatim>\<open>score > best_score and score >= 2\<close>.
\<close>

datatype error = AttributeError | ValueError

type_synonym row = "string \<rightharpoonup> string option"
type_synonym pdf_map = "(nat \<times> string) list"

definition row_get :: "row \<Rightarrow> string \<Rightarrow> string \<Rightarrow> string option" where
  "row_get row key dflt = (case row key of None \<Rightarrow> Some dflt | Some cell \<Rightarrow> cell)"

fun contains :: "string \<Rightarrow> string \<Rightarrow> bool" where
  "contains [] sub = (sub = [])"
| "contains (c # cs) sub = (take (length sub) (c # cs) = sub \<or> contains cs sub)"

definition isdigit_char :: "char \<Rightarrow> bool" where
  "isdigit_char c = (let n = (of_char c :: nat) in
     (48 \<le> n \<and> n \<le> 57) \<or> n = 178 \<or> n = 179 \<or> n = 185)"

definition isdigit :: "string \<Rightarrow> bool" where
  "isdigit s = (s \<noteq> [] \<and> list_all isdigit_char s)"

definition isdecimal_char :: "char \<Rightarrow> bool" where
  "isdecimal_char c = (let n = (of_char c :: nat) in 48 \<le> n \<and> n \<le> 57)"

definition py_int :: "string \<Rightarrow> error + nat" where
  "py_int s =
     (if s \<noteq> [] \<and> list_all isdecimal_char s
      then Inr (foldl (\<lambda>acc c. 10 * acc + (of_char c - 48)) 0 s)
      else Inl ValueError)"

definition title_test :: "string \<Rightarrow> row \<Rightarrow> error + bool" where
  "title_test search_title row =
     (case row_get row ''Title'' [] of
        None \<Rightarrow> Inl AttributeError
      | Some t \<Rightarrow> Inr (contains (lower t) (lower search_title) \<or>
                      contains (lower search_title) (lower t)))"

definition check_row :: "string \<Rightarrow> pdf_map \<Rightarrow> row \<Rightarrow> error + string option" where
  "check_row search_title pdf_map row =
     (case title_test search_title row of
        Inl e \<Rightarrow> Inl e
      | Inr False \<Rightarrow> Inr None
      | Inr True \<Rightarrow>
          (case row_get row ''Paper Number'' [] of
             None \<Rightarrow> Inl AttributeError
           | Some cell \<Rightarrow>
               (let p_num_str = strip cell in
                if p_num_str \<noteq> [] \<and> isdigit p_num_str then
                  (case py_int p_num_str of
                     Inl e \<Rightarrow> Inl e
                   | Inr p_num \<Rightarrow> Inr (map_of pdf_map p_num))
                else Inr None)))"

fun included_loop :: "string \<Rightarrow> pdf_map \<Rightarrow> row list \<Rightarrow> error + string option" where
  "included_loop search_title pdf_map [] = Inr None"
| "included_loop search_title pdf_map (row # rows) =
     (case check_row search_title pdf_map row of
        Inl e \<Rightarrow> Inl e
      | Inr (Some target_pdf) \<Rightarrow> Inr (Some target_pdf)
      | Inr None \<Rightarrow> included_loop search_title pdf_map rows)"

fun csv_loop :: "string \<Rightarrow> row list \<Rightarrow> error + unit" where
  "csv_loop search_title [] = Inr ()"
| "csv_loop search_title (row # rows) =
     (case row_get row ''Paper Title'' [] of
        None \<Rightarrow> Inl AttributeError
      | Some t \<Rightarrow>
          (if contains (lower t) (lower search_title) then csv_loop search_title rows
           else csv_loop search_title rows))"

fun split_nonword :: "string \<Rightarrow> bool \<Rightarrow> string \<Rightarrow> string list" where
  "split_nonword cur in_sep [] = [cur]"
| "split_nonword cur in_sep (c # cs) =
     (if is_word c then split_nonword (cur @ [c]) False cs
      else if in_sep then split_nonword cur True cs
      else cur # split_nonword [] True cs)"

definition title_tokens :: "string \<Rightarrow> string list" where
  "title_tokens t = filter (\<lambda>w. length w > 4) (split_nonword [] False t)"

definition score :: "string list \<Rightarrow> string \<Rightarrow> nat" where
  "score tokens p_file = length (filter (\<lambda>t. contains (lower p_file) (lower t)) tokens)"

definition improves :: "nat \<Rightarrow> nat \<Rightarrow> bool" where
  "improves sc best_score = (sc > best_score \<and> sc \<ge> 2)"

fun pdf_loop :: "string list \<Rightarrow> pdf_map \<Rightarrow> nat \<times> string option \<Rightarrow> nat \<times> string option" where
  "pdf_loop tokens [] st = st"
| "pdf_loop tokens ((p_num, p_file) # rest) (best_score, target_pdf) =
     (if improves (score tokens p_file) best_score
      then pdf_loop tokens rest (score tokens p_file, Some p_file)
      else pdf_loop tokens rest (best_score, target_pdf))"

definition falsy :: "string option \<Rightarrow> bool" where
  "falsy target_pdf = (target_pdf = None \<or> target_pdf = Some [])"

definition link :: "string option \<Rightarrow> string option" where
  "link target_pdf =
     (if falsy target_pdf then None
      else Some (''paper_for_full_text_review/'' @ the target_pdf))"

definition resolve_reference ::
    "string option \<Rightarrow> row list \<Rightarrow> row list \<Rightarrow> pdf_map \<Rightarrow> error + string option" where
  "resolve_reference title_match included_papers csv_papers pdf_map =
     (case title_match of
        None \<Rightarrow> Inr None
      | Some search_title \<Rightarrow>
          (case included_loop search_title pdf_map included_papers of
             Inl e \<Rightarrow> Inl e
           | Inr target_pdf \<Rightarrow>
               if falsy target_pdf then
                 (case csv_loop search_title csv_papers of
                    Inl e \<Rightarrow> Inl e
                  | Inr u \<Rightarrow>
                      Inr (link (snd (pdf_loop (title_tokens search_title) pdf_map (0, target_pdf)))))
               else Inr (link target_pdf)))"

subsection \<open>Notions of the specification\<close>


text \<open>The identifier match: the first test of \<open>are_duplicates\<close>.\<close>

definition doi_match :: "paper \<Rightarrow> paper \<Rightarrow> bool" where
  "doi_match paper1 paper2 =
     (doi_key paper1 \<noteq> [] \<and> doi_key paper2 \<noteq> [] \<and> doi_key paper1 = doi_key paper2)"


section \<open>Properties\<close>

subsection \<open>Normalisation\<close>

lemma char_eq_iff_of_char: "(c = d) = ((of_char c :: nat) = of_char d)"
  by auto

lemma of_char_lt_256: "(of_char c :: nat) < 256"
  by (metis of_char_mod_256 mod_less_divisor zero_less_numeral)

lemma of_char_lower_char:
  "(of_char (lower_char c) :: nat) =
     (let n = of_char c in
      if (65 \<le> n \<and> n \<le> 90) \<or> (192 \<le> n \<and> n \<le> 214) \<or> (216 \<le> n \<and> n \<le> 222)
      then n + 32 else n)"
  by (auto simp: lower_char_def Let_def)

lemma isalnum_lower_char: "isalnum (lower_char c) = isalnum c"
  unfolding isalnum_def of_char_lower_char Let_def by auto

lemma underscore_lower_char: "(lower_char c = CHR ''_'') = (c = CHR ''_'')"
  unfolding char_eq_iff_of_char[of _ "CHR ''_''"] of_char_lower_char Let_def by auto

lemma is_word_lower_char: "is_word (lower_char c) = is_word c"
  by (simp add: is_word_def isalnum_lower_char underscore_lower_char)



lemma lower_char_idem: "lower_char (lower_char c) = lower_char c"
  unfolding char_eq_iff_of_char[of "lower_char (lower_char c)"] 
  by (subst of_char_lower_char) (auto simp: of_char_lower_char Let_def)


lemma is_word_not_space: "is_word c \<Longrightarrow> \<not> isspace c"
  unfolding is_word_def isalnum_def isspace_def Let_def by auto

lemma strip_Nil_iff: "strip t = [] \<longleftrightarrow> (\<forall>c\<in>set t. isspace c)"
proof
  assume "strip t = []"
  then have "\<forall>c\<in>set (dropWhile isspace t). isspace c"
    by (simp add: strip_def dropWhile_eq_Nil_conv)
  then have "dropWhile isspace t = []"
    using hd_dropWhile[of isspace t] by (cases "dropWhile isspace t") auto
  then show "\<forall>c\<in>set t. isspace c" by (simp add: dropWhile_eq_Nil_conv)
next
  assume "\<forall>c\<in>set t. isspace c"
  then have "\<forall>c\<in>set (dropWhile isspace t). isspace c"
    using set_dropWhileD by fastforce
  then show "strip t = []" by (simp add: strip_def dropWhile_eq_Nil_conv)
qed

lemma set_strip_subset: "set (strip t) \<subseteq> set t"
proof
  fix c
  assume "c \<in> set (strip t)"
  then have "c \<in> set (dropWhile isspace (rev (dropWhile isspace t)))" by (simp add: strip_def)
  then have "c \<in> set (dropWhile isspace t)" using set_dropWhileD by fastforce
  then show "c \<in> set t" by (rule set_dropWhileD)
qed

lemma strip_has_nonspace: "strip t \<noteq> [] \<Longrightarrow> \<exists>c\<in>set (strip t). \<not> isspace c"
proof -
  assume ne: "strip t \<noteq> []"
  let ?r = "dropWhile isspace (rev (dropWhile isspace t))"
  have "?r \<noteq> []" using ne by (simp add: strip_def)
  then have "\<not> isspace (hd ?r)" "hd ?r \<in> set ?r"
    using hd_dropWhile[of isspace "rev (dropWhile isspace t)"] by auto
  then show ?thesis by (auto simp: strip_def)
qed

lemma in_dropWhile_nonspace: "c \<in> set cs \<Longrightarrow> \<not> P c \<Longrightarrow> c \<in> set (dropWhile P cs)"
  by (induction cs) auto

lemma sub_spaces_nonspace:
  "\<not> isspace c \<Longrightarrow> c \<in> set (sub_spaces t) \<longleftrightarrow> c \<in> set t"
proof (induction t rule: sub_spaces.induct)
  case 1
  then show ?case by simp
next
  case (2 d ds)
  show ?case
  proof (cases "isspace d")
    case True
    then have "c \<noteq> d" "c \<noteq> CHR '' ''" using 2(3) by (auto simp: isspace_def)
    moreover have "c \<in> set (dropWhile isspace ds) \<longleftrightarrow> c \<in> set ds"
      using in_dropWhile_nonspace[of c ds isspace] 2(3) set_dropWhileD by fastforce
    ultimately show ?thesis using True 2 by simp
  next
    case False
    then show ?thesis using 2 by simp
  qed
qed

lemma sub_special_chars: "c \<in> set (sub_special t) \<Longrightarrow> is_word c \<or> isspace c"
  by (auto simp: sub_special_def isspace_def)

lemma sub_special_keeps_word: "c \<in> set t \<Longrightarrow> is_word c \<Longrightarrow> c \<in> set (sub_special t)"
  by (force simp: sub_special_def)

lemma sub_special_origin:
  "c \<in> set (sub_special t) \<Longrightarrow> \<not> isspace c \<Longrightarrow> c \<in> set t"
  by (auto simp: sub_special_def isspace_def split: if_splits)

lemma normalize_word_chars:
  assumes "c \<in> set (normalize_string s)" "\<not> isspace c"
  shows "is_word c"
proof (cases s)
  case None
  with assms show ?thesis by simp
next
  case (Some x)
  with assms have "c \<in> set (sub_spaces (sub_special (lower x)))"
    using set_strip_subset by (auto split: if_splits)
  then have "c \<in> set (sub_special (lower x))" using assms(2) by (simp add: sub_spaces_nonspace)
  then show ?thesis using sub_special_chars assms(2) by blast
qed

lemma normalize_nonempty_iff:
  "normalize_string (Some x) \<noteq> [] \<longleftrightarrow> (\<exists>c\<in>set x. is_word c)"
proof
  assume ne: "normalize_string (Some x) \<noteq> []"
  then have "strip (sub_spaces (sub_special (lower x))) \<noteq> []" by (simp split: if_splits)
  then obtain c where c: "c \<in> set (sub_spaces (sub_special (lower x)))" "\<not> isspace c"
    using strip_Nil_iff by blast
  then have "c \<in> set (sub_special (lower x))" by (simp add: sub_spaces_nonspace)
  then have "c \<in> set (lower x)" "is_word c"
    using c(2) sub_special_origin sub_special_chars by blast+
  then show "\<exists>c\<in>set x. is_word c" by (auto simp: lower_def is_word_lower_char)
next
  assume "\<exists>c\<in>set x. is_word c"
  then obtain c where c: "c \<in> set x" "is_word c" by blast
  then have "lower_char c \<in> set (lower x)" "is_word (lower_char c)"
    by (auto simp: lower_def is_word_lower_char)
  then have "lower_char c \<in> set (sub_special (lower x))" by (rule sub_special_keeps_word)
  then have "lower_char c \<in> set (sub_spaces (sub_special (lower x)))"
    using \<open>is_word (lower_char c)\<close> is_word_not_space sub_spaces_nonspace by blast
  then have "strip (sub_spaces (sub_special (lower x))) \<noteq> []"
    using \<open>is_word (lower_char c)\<close> is_word_not_space strip_Nil_iff by blast
  then show "normalize_string (Some x) \<noteq> []" using c(1) by auto
qed

lemma normalize_twice_nonempty:
  assumes "normalize_string s \<noteq> []"
  shows "normalize_string (Some (normalize_string s)) \<noteq> []"
proof -
  obtain x where s: "s = Some x" "x \<noteq> []" using assms by (cases s) (auto split: if_splits)
  then have "strip (sub_spaces (sub_special (lower x))) \<noteq> []" using assms by simp
  then obtain c where "c \<in> set (strip (sub_spaces (sub_special (lower x))))" "\<not> isspace c"
    using strip_has_nonspace by blast
  then have "c \<in> set (normalize_string s)" "\<not> isspace c" using s by auto
  then show ?thesis using normalize_word_chars normalize_nonempty_iff by blast
qed

subsection \<open>The ratio of a sequence with itself\<close>

text \<open>
  \<open>positions b elt\<close> lists the positions of \<open>elt\<close> in \<open>b\<close>; every entry of the index is
  such a list. \<open>run_len b2j x i j\<close> is the length of the longest run of equal, indexed
  elements of \<open>x\<close> that ends at the positions \<open>i\<close> and \<open>j\<close>: the value the inner loop stores
  in \<open>newj2len[j]\<close> when both sequences are \<open>x\<close>. A run off the diagonal is never longer
  than the diagonal runs through its two end points, which the loop has seen before; so
  the best block stays on the diagonal, and the extension loops stretch it over all of \<open>x\<close>.
\<close>

definition positions :: "'a list \<Rightarrow> 'a \<Rightarrow> nat list" where
  "positions b elt = filter (\<lambda>j. b ! j = elt) [0..<length b]"

lemma positions_snoc:
  "positions (b @ [e]) elt = positions b elt @ (if e = elt then [length b] else [])"
proof -
  have "filter (\<lambda>j. (b @ [e]) ! j = elt) [0..<length b] = filter (\<lambda>j. b ! j = elt) [0..<length b]"
    by (rule filter_cong) (auto simp: nth_append)
  then show ?thesis by (simp add: positions_def)
qed

lemma positions_Nil_iff: "positions b elt = [] \<longleftrightarrow> elt \<notin> set b"
  by (auto simp: positions_def filter_empty_conv in_set_conv_nth)

lemma chain_b_index_eq:
  "chain_b_index b elt = (if elt \<in> set b then Some (positions b elt) else None)"
proof (induction b rule: rev_induct)
  case Nil
  then show ?case by (simp add: chain_b_index_def)
next
  case (snoc e b)
  have step: "chain_b_index (b @ [e]) =
      (chain_b_index b)(e \<mapsto> (case chain_b_index b e of None \<Rightarrow> [] | Some indices \<Rightarrow> indices) @ [length b])"
    by (simp add: chain_b_index_def enumerate_append_eq)
  show ?case
  proof (cases "elt = e")
    case True
    then show ?thesis
      using snoc positions_Nil_iff[of b e] by (auto simp: step positions_snoc)
  next
    case False
    then show ?thesis using snoc by (auto simp: step positions_snoc)
  qed
qed

lemma chain_b_cases:
  "chain_b b elt = None \<or> chain_b b elt = Some (positions b elt)"
  by (auto simp: chain_b_def Let_def chain_b_index_eq)

fun run_len :: "('a \<rightharpoonup> nat list) \<Rightarrow> 'a list \<Rightarrow> nat \<Rightarrow> nat \<Rightarrow> nat" where
  "run_len b2j x 0 j =
     (if j < length x \<and> 0 < length x \<and> x ! 0 = x ! j \<and> b2j (x ! 0) \<noteq> None then 1 else 0)"
| "run_len b2j x (Suc i) j =
     (if j < length x \<and> Suc i < length x \<and> x ! Suc i = x ! j \<and> b2j (x ! Suc i) \<noteq> None
      then (case j of 0 \<Rightarrow> 1 | Suc j' \<Rightarrow> run_len b2j x i j' + 1) else 0)"

definition tbl_val :: "(nat \<rightharpoonup> nat) \<Rightarrow> nat \<Rightarrow> nat" where
  "tbl_val j2len j = (case j2len j of None \<Rightarrow> 0 | Some v \<Rightarrow> v)"

definition prev_run :: "('a \<rightharpoonup> nat list) \<Rightarrow> 'a list \<Rightarrow> nat \<Rightarrow> nat \<Rightarrow> nat" where
  "prev_run b2j x i j = (case i of 0 \<Rightarrow> 0 | Suc i' \<Rightarrow> run_len b2j x i' j)"

lemma run_len_le_diag_right: "run_len b2j x i j \<le> run_len b2j x j j"
proof (induction i arbitrary: j)
  case 0
  then show ?case by (cases j) auto
next
  case (Suc i)
  show ?case
  proof (cases j)
    case 0
    then show ?thesis by auto
  next
    case (Suc j')
    then show ?thesis using Suc.IH[of j'] by auto
  qed
qed

lemma run_len_le_diag_left: "run_len b2j x i j \<le> run_len b2j x i i"
proof (induction i arbitrary: j)
  case 0
  then show ?case by auto
next
  case (Suc i)
  show ?case
  proof (cases j)
    case 0
    then show ?thesis by auto
  next
    case (Suc j')
    then show ?thesis using Suc.IH[of j'] by auto
  qed
qed

lemma run_len_step:
  assumes "i < length x" "j < length x" "x ! j = x ! i" "b2j (x ! i) \<noteq> None"
      and "\<forall>j. tbl_val j2len j = prev_run b2j x i j"
  shows "j2lenget j2len j + 1 = run_len b2j x i j"
proof (cases i)
  case 0
  then show ?thesis
    using assms by (auto simp: j2lenget_def prev_run_def tbl_val_def split: option.splits)
next
  case (Suc i')
  show ?thesis
  proof (cases j)
    case 0
    then show ?thesis using assms Suc by (simp add: j2lenget_def)
  next
    case (Suc j')
    have "tbl_val j2len j' = run_len b2j x i' j'"
      using assms(5) \<open>i = Suc i'\<close> by (simp add: prev_run_def)
    then show ?thesis
      using assms Suc \<open>i = Suc i'\<close> by (simp add: j2lenget_def tbl_val_def)
  qed
qed

lemma inner_loop_diag:
  assumes "i < length x"
      and "\<forall>j. tbl_val j2len j = prev_run b2j x i j"
      and "sorted js" "\<forall>j\<in>set js. j < length x \<and> x ! j = x ! i" "js \<noteq> [] \<longrightarrow> b2j (x ! i) \<noteq> None"
      and "bi = bj" "\<forall>i'<i. run_len b2j x i' i' \<le> bs"
      and "i \<in> set js \<or> run_len b2j x i i \<le> bs"
      and "inner_loop i 0 (length x) j2len js (new, bi, bj, bs) = (new', bi', bj', bs')"
  shows "bi' = bj' \<and> (\<forall>i'\<le>i. run_len b2j x i' i' \<le> bs') \<and>
         (\<forall>j. new' j = (if j \<in> set js then Some (run_len b2j x i j) else new j))"
  using assms(3-)
proof (induction js arbitrary: new bi bj bs)
  case Nil
  then show ?case by (auto simp: le_less)
next
  case (Cons j js)
  let ?k = "j2lenget j2len j + 1"
  have jn: "j < length x" and xj: "x ! j = x ! i" and np: "b2j (x ! i) \<noteq> None"
    using Cons.prems(2,3) by auto
  have k: "?k = run_len b2j x i j"
    by (rule run_len_step[OF assms(1) jn xj np assms(2)])
  have sorted: "sorted js" and all: "\<forall>j\<in>set js. j < length x \<and> x ! j = x ! i"
    and np': "js \<noteq> [] \<longrightarrow> b2j (x ! i) \<noteq> None"
    using Cons.prems(1,2) np by auto
  show ?case
  proof (cases "?k > bs")
    case True
    have ji: "j = i"
    proof (rule ccontr)
      assume "j \<noteq> i"
      then consider "j < i" | "i < j" by linarith
      then show False
      proof cases
        case 1
        then have "run_len b2j x j j \<le> bs" using Cons.prems(5) by simp
        with run_len_le_diag_right[of b2j x i j] True k show False by simp
      next
        case 2
        then have "i \<notin> set (j # js)" using Cons.prems(1) by auto
        then have "run_len b2j x i i \<le> bs" using Cons.prems(6) by simp
        with run_len_le_diag_left[of b2j x i j] True k show False by simp
      qed
    qed
    have il: "inner_loop i 0 (length x) j2len js (new(j \<mapsto> ?k), i + 1 - ?k, j + 1 - ?k, ?k) = (new', bi', bj', bs')"
      using Cons.prems(7) jn True by (simp add: Let_def)
    have "bi' = bj' \<and> (\<forall>i'\<le>i. run_len b2j x i' i' \<le> bs') \<and>
         (\<forall>j'. new' j' = (if j' \<in> set js then Some (run_len b2j x i j') else (new(j \<mapsto> ?k)) j'))"
    proof (rule Cons.IH[OF sorted all np' _ _ _ il])
      show "i + 1 - ?k = j + 1 - ?k" using ji by simp
      show "\<forall>i'<i. run_len b2j x i' i' \<le> ?k" using Cons.prems(5) True by auto
      show "i \<in> set js \<or> run_len b2j x i i \<le> ?k" using k ji by simp
    qed
    then show ?thesis using k by auto
  next
    case False
    have il: "inner_loop i 0 (length x) j2len js (new(j \<mapsto> ?k), bi, bj, bs) = (new', bi', bj', bs')"
      using Cons.prems(7) jn False by (simp add: Let_def)
    have "bi' = bj' \<and> (\<forall>i'\<le>i. run_len b2j x i' i' \<le> bs') \<and>
         (\<forall>j'. new' j' = (if j' \<in> set js then Some (run_len b2j x i j') else (new(j \<mapsto> ?k)) j'))"
    proof (rule Cons.IH[OF sorted all np' Cons.prems(4,5) _ il])
      show "i \<in> set js \<or> run_len b2j x i i \<le> bs"
        using Cons.prems(6) False k by auto
    qed
    then show ?thesis using k by auto
  qed
qed

lemma positions_props:
  "sorted (positions x c)" "\<forall>j\<in>set (positions x c). j < length x \<and> x ! j = c"
  "i < length x \<Longrightarrow> i \<in> set (positions x (x ! i))"
  by (auto simp: positions_def sorted_wrt_filter)

lemma outer_loop_diag:
  assumes "\<forall>c. b2j c = None \<or> b2j c = Some (positions x c)"
      and "m \<le> length x"
      and "\<forall>j. tbl_val j2len j = prev_run b2j x m j"
      and "bi = bj" "\<forall>i'<m. run_len b2j x i' i' \<le> bs"
      and "outer_loop x b2j 0 (length x) [m..<length x] (j2len, bi, bj, bs) = (bi', bj', bs')"
  shows "bi' = bj'"
  using assms(2-)
proof (induction "length x - m" arbitrary: m j2len bi bj bs)
  case 0
  then show ?case by simp
next
  case (Suc d)
  then have lt: "m < length x" by simp
  let ?js = "case b2j (x ! m) of None \<Rightarrow> [] | Some js \<Rightarrow> js"
  obtain n1 b1 j1 s1 where il:
    "inner_loop m 0 (length x) j2len ?js (Map.empty, bi, bj, bs) = (n1, b1, j1, s1)"
    by (metis prod_cases4)
  have js: "?js = [] \<and> b2j (x ! m) = None \<or> ?js = positions x (x ! m) \<and> b2j (x ! m) \<noteq> None"
    using assms(1)[rule_format, of "x ! m"] by auto
  have cur: "m \<in> set ?js \<or> run_len b2j x m m \<le> bs"
    using js positions_props(3)[OF lt] by (cases m) auto
  have inv: "b1 = j1 \<and> (\<forall>i'\<le>m. run_len b2j x i' i' \<le> s1) \<and>
         (\<forall>j. n1 j = (if j \<in> set ?js then Some (run_len b2j x m j) else Map.empty j))"
  proof (rule inner_loop_diag[OF lt Suc.prems(2) _ _ _ Suc.prems(3,4) cur il])
    show "sorted ?js" using js positions_props(1)[of x "x ! m"] by auto
    show "\<forall>j\<in>set ?js. j < length x \<and> x ! j = x ! m"
      using js positions_props(2)[of x "x ! m"] by auto
    show "?js \<noteq> [] \<longrightarrow> b2j (x ! m) \<noteq> None" using js by auto
  qed
  have tbl: "\<forall>j. tbl_val n1 j = prev_run b2j x (Suc m) j"
  proof
    fix j
    show "tbl_val n1 j = prev_run b2j x (Suc m) j"
    proof (cases "j \<in> set ?js")
      case True
      then show ?thesis using inv by (simp add: tbl_val_def prev_run_def)
    next
      case False
      then have "j \<ge> length x \<or> x ! j \<noteq> x ! m \<or> b2j (x ! m) = None"
        using js by (auto simp: positions_def)
      then have "run_len b2j x m j = 0" by (cases m) auto
      then show ?thesis using inv False by (simp add: tbl_val_def prev_run_def)
    qed
  qed
  have ol: "outer_loop x b2j 0 (length x) [Suc m..<length x] (n1, b1, j1, s1) = (bi', bj', bs')"
    using Suc.prems(5) lt il by (simp add: upt_conv_Cons)
  have d: "d = length x - Suc m" using Suc.hyps(2) by simp
  show ?case
    by (rule Suc.hyps(1)[OF d _ tbl _ _ ol]) (use lt inv in \<open>auto simp: less_Suc_eq_le\<close>)
qed

lemma extend_left_diag:
  assumes "\<And>c. P c"
  shows "extend_left x x 0 0 P (i, i, s) = (0, 0, s + i)"
proof (induction i arbitrary: s)
  case 0
  then show ?case by (simp add: extend_left.simps)
next
  case (Suc i)
  have "extend_left x x 0 0 P (Suc i, Suc i, s) = extend_left x x 0 0 P (i, i, s + 1)"
    by (subst extend_left.simps) (simp add: assms)
  then show ?case by (simp add: Suc.IH)
qed

lemma extend_right_diag:
  assumes "\<And>c. P c"
  shows "s \<le> length x \<Longrightarrow>
    extend_right x x (length x) (length x) P (0, 0, s) = (0, 0, length x)"
proof (induction "length x - s" arbitrary: s)
  case 0
  then show ?case by (simp add: extend_right.simps)
next
  case (Suc d)
  then have "s < length x" by simp
  moreover have "extend_right x x (length x) (length x) P (0, 0, s + 1) = (0, 0, length x)"
    using Suc by (intro Suc.hyps(1)) auto
  ultimately show ?case by (subst extend_right.simps) (simp add: assms)
qed

lemma extend_junk_id:
  "extend_left a b alo blo isbjunk best = best" "extend_right a b ahi bhi isbjunk best = best"
  by (cases best; simp add: extend_left.simps extend_right.simps isbjunk_def)+

lemma find_longest_match_refl:
  "find_longest_match x x (chain_b x) 0 (length x) 0 (length x) = (0, 0, length x)"
proof -
  obtain i j s where o: "outer_loop x (chain_b x) 0 (length x) [0..<length x] (Map.empty, 0, 0, 0) = (i, j, s)"
    by (metis prod_cases3)
  have ij: "i = j"
    by (rule outer_loop_diag[OF _ _ _ _ _ o]) (auto simp: chain_b_cases tbl_val_def prev_run_def)
  have b: "0 \<le> i \<and> i + s \<le> length x"
    by (rule outer_loop_bounds[OF _ _ _ _ _ o]) auto
  have 1: "extend_left x x 0 0 (\<lambda>c. \<not> isbjunk c) (i, j, s) = (0, 0, s + i)"
    unfolding ij[symmetric] by (rule extend_left_diag) (simp add: isbjunk_def)
  have 2: "extend_right x x (length x) (length x) (\<lambda>c. \<not> isbjunk c) (0, 0, s + i) = (0, 0, length x)"
    by (rule extend_right_diag) (use b in \<open>auto simp: isbjunk_def\<close>)
  show ?thesis
    by (simp add: find_longest_match_def o 1 2 extend_junk_id)
qed

lemma blocks_loop_refl:
  "x \<noteq> [] \<Longrightarrow> blocks_loop x x (chain_b x) [(0, length x, 0, length x)] [] = [(0, 0, length x)]"
  by (simp add: find_longest_match_refl)

lemma ratio_refl: "x \<noteq> [] \<Longrightarrow> ratio x x = 1"
  using blocks_loop_refl[of x]
  by (simp add: ratio_def get_matching_blocks_def calculate_ratio_def Let_def del: blocks_loop.simps)

lemma title_similarity_refl:
  "normalize_string t \<noteq> [] \<Longrightarrow> title_similarity t t = 1"
  by (simp add: title_similarity_def ratio_refl)

subsection \<open>The classifier and the deduplicator\<close>

lemma dedup_loop_count:
  "snd (dedup_loop ps (u, d)) + length (fst (dedup_loop ps (u, d))) = d + length u + length ps"
  by (induction ps arbitrary: u d) auto

subsection \<open>The reference resolver\<close>

lemma contains_Nil [simp]: "contains s []"
  by (cases s) auto

lemma contains_in_Nil [simp]: "contains [] sub = (sub = [])"
  by simp

lemma included_loop_skip:
  "\<forall>r\<in>set pre. check_row st pdf r = Inr None \<Longrightarrow>
   included_loop st pdf (pre @ rows) = included_loop st pdf rows"
  by (induction pre) auto

lemma resolve_first_hit:
  assumes "\<forall>r\<in>set pre. check_row st pdf r = Inr None"
      and "check_row st pdf row = Inr (Some f)" "f \<noteq> []"
  shows "resolve_reference (Some st) (pre @ row # post) csv pdf =
         Inr (Some (''paper_for_full_text_review/'' @ f))"
  using assms by (simp add: resolve_reference_def included_loop_skip falsy_def link_def)









lemma csv_loop_cases: "csv_loop st csv = Inr () \<or> csv_loop st csv = Inl AttributeError"
  by (induction csv) (auto split: option.splits)

lemma resolve_csv_irrelevant:
  "resolve_reference tm inc csv pdf = resolve_reference tm inc [] pdf \<or>
   resolve_reference tm inc csv pdf = Inl AttributeError"
proof (cases tm)
  case None
  then show ?thesis by (simp add: resolve_reference_def)
next
  case (Some st)
  then show ?thesis
    using csv_loop_cases[of st csv]
    by (auto simp: resolve_reference_def split: sum.splits)
qed

lemma check_row_hit:
  assumes "row_get row ''Title'' [] = Some t"
      and "contains (lower t) (lower st) \<or> contains (lower st) (lower t)"
      and "row_get row ''Paper Number'' [] = Some cell" "isdigit (strip cell)"
      and "py_int (strip cell) = Inr n" "map_of pdf n = Some f"
  shows "check_row st pdf row = Inr (Some f)"
  using assms by (auto simp: check_row_def title_test_def isdigit_def Let_def)

lemma strip_Nil: "strip [] = []"
  by (simp add: strip_def)

section \<open>The claims\<close>

subsection \<open>C1: records without a title\<close>

text \<open>
  C1 as amended. If either record lacks a title (the field is absent or empty),
  \<open>are_duplicates\<close> returns true exactly when the identifier match holds (both DOIs are
  non-empty after trimming and equal after lowercasing), and false otherwise: the DOI
  test of the source comes before the title test.
\<close>

theorem are_duplicates_missing_title:
  assumes "\<not> truthy (title paper1) \<or> \<not> truthy (title paper2)"
  shows "are_duplicates paper1 paper2 threshold = doi_match paper1 paper2"
  using assms by (auto simp: are_duplicates_def doi_match_def Let_def)

text \<open>An instance: no title and different DOIs, so the pair is not a duplicate.\<close>

theorem are_duplicates_missing_title_witness:
  "\<not> truthy (title \<lparr>doi = Some ''10.1/x'', title = None, authors = None\<rparr>) \<and>
   \<not> are_duplicates \<lparr>doi = Some ''10.1/x'', title = None, authors = None\<rparr>
     \<lparr>doi = Some ''10.2/y'', title = Some ''Drift'', authors = None\<rparr> (85 / 100)"
proof -
  let ?p = "\<lparr>doi = Some ''10.1/x'', title = None, authors = None\<rparr>"
  let ?q = "\<lparr>doi = Some ''10.2/y'', title = Some ''Drift'', authors = None\<rparr>"
  have h: "\<not> truthy (title ?p)" by code_simp
  then have h': "\<not> truthy (title ?p) \<or> \<not> truthy (title ?q)" by blast
  have d: "\<not> doi_match ?p ?q" by code_simp
  show ?thesis using are_duplicates_missing_title[OF h', of "85 / 100"] h d by blast
qed

text \<open>
  C1 as stated fails: a record without a title is classified as a duplicate of a record
  with the same DOI.
\<close>

theorem missing_title_counterexample:
  "\<not> truthy (title \<lparr>doi = Some ''10.1/x'', title = None, authors = None\<rparr>) \<and>
   are_duplicates \<lparr>doi = Some ''10.1/x'', title = None, authors = None\<rparr>
     \<lparr>doi = Some ''10.1/X'', title = Some ''Drift'', authors = None\<rparr> (85 / 100)"
  by code_simp

subsection \<open>C2: the identifier match\<close>

text \<open>
  C2 as amended. If both records have a DOI, the trimmed and lowercased forms are equal
  and that form is not empty, \<open>are_duplicates\<close> returns true for every threshold, whatever
  the titles and the author lists are.
\<close>

theorem are_duplicates_equal_doi:
  assumes "doi paper1 = Some d1" "doi paper2 = Some d2"
      and "lower (strip d1) = lower (strip d2)" "lower (strip d1) \<noteq> []"
  shows "are_duplicates paper1 paper2 threshold"
proof -
  have "d1 \<noteq> []" "d2 \<noteq> []" using assms(3,4) by (auto simp: strip_Nil lower_def)
  then have "doi_key paper1 = lower (strip d1)" "doi_key paper2 = lower (strip d2)"
    using assms(1,2) by (simp_all add: doi_key_def truthy_def)
  then show ?thesis using assms(3,4) by (simp add: are_duplicates_def Let_def)
qed

text \<open>An instance: DOIs that differ in case and surrounding blanks, unrelated titles.\<close>

theorem are_duplicates_equal_doi_witness:
  "are_duplicates \<lparr>doi = Some ''10.1/X '', title = Some ''Drift'', authors = None\<rparr>
     \<lparr>doi = Some '' 10.1/x'', title = Some ''Other'', authors = None\<rparr> (85 / 100)"
proof -
  have e: "lower (strip ''10.1/X '') = lower (strip '' 10.1/x'')" by code_simp
  have n: "lower (strip ''10.1/X '') \<noteq> []" by code_simp
  show ?thesis by (rule are_duplicates_equal_doi[OF _ _ e n]) simp_all
qed

text \<open>
  C2 as stated fails: two records whose DOI is one blank have non-empty DOIs with equal
  trimmed, lowercased forms, and are not classified as duplicates.
\<close>

theorem blank_doi_counterexample:
  "doi \<lparr>doi = Some '' '', title = None, authors = None\<rparr> = Some '' '' \<and> '' '' \<noteq> [] \<and>
   lower (strip '' '') = lower (strip '' '') \<and>
   \<not> are_duplicates \<lparr>doi = Some '' '', title = None, authors = None\<rparr>
       \<lparr>doi = Some '' '', title = None, authors = None\<rparr> (85 / 100)"
  by code_simp

subsection \<open>C3: the duplicate count\<close>

text \<open>
  C3. For every input sequence, the number of duplicates that \<open>deduplicate_papers\<close>
  returns plus the number of unique records it returns is the length of the input.
\<close>

theorem deduplicate_papers_count:
  "snd (deduplicate_papers all_papers) + length (fst (deduplicate_papers all_papers)) =
   length all_papers"
  by (simp add: deduplicate_papers_def dedup_loop_count)

text \<open>An instance: two records with the same DOI.\<close>

theorem deduplicate_papers_count_witness:
  "snd (deduplicate_papers [\<lparr>doi = Some ''a'', title = None, authors = None\<rparr>,
                            \<lparr>doi = Some ''A'', title = None, authors = None\<rparr>]) +
   length (fst (deduplicate_papers [\<lparr>doi = Some ''a'', title = None, authors = None\<rparr>,
                            \<lparr>doi = Some ''A'', title = None, authors = None\<rparr>])) = 2"
  using deduplicate_papers_count[of "[\<lparr>doi = Some ''a'', title = None, authors = None\<rparr>,
                    \<lparr>doi = Some ''A'', title = None, authors = None\<rparr>]"] by simp

subsection \<open>C4: what \<open>normalize_string\<close> computes\<close>




subsection \<open>C5: the score of a normalised string with itself\<close>

text \<open>
  C5 as amended. For every string \<open>s\<close> whose normalised form is not empty, the similarity
  of the normalised form with itself is exactly 1.
\<close>

theorem title_similarity_identity:
  assumes "normalize_string (Some s) \<noteq> []"
  shows "title_similarity (Some (normalize_string (Some s))) (Some (normalize_string (Some s))) = 1"
  by (rule title_similarity_refl) (rule normalize_twice_nonempty[OF assms])

text \<open>An instance.\<close>

theorem title_similarity_identity_witness:
  "title_similarity (Some (normalize_string (Some ''A-b''))) (Some (normalize_string (Some ''A-b''))) = 1"
proof -
  have "normalize_string (Some ''A-b'') \<noteq> []" by code_simp
  then show ?thesis by (rule title_similarity_identity)
qed

text \<open>
  C5 as stated fails: the non-empty string \<open>!\<close> normalises to the empty string, and the
  score of the empty string with itself is 0.
\<close>

theorem punctuation_only_counterexample:
  "''!'' \<noteq> [] \<and>
   title_similarity (Some (normalize_string (Some ''!''))) (Some (normalize_string (Some ''!''))) \<noteq> 1"
  by code_simp

subsection \<open>C6: the order of the arguments\<close>

text \<open>
  C6 as amended. When one of the two titles normalises to the empty string, or both
  normalise to the same string, \<open>title_similarity\<close> gives the same score in both orders:
  0 in the first case and 1 in the second.
\<close>

theorem title_similarity_commutes:
  assumes "normalize_string a = [] \<or> normalize_string b = [] \<or> normalize_string a = normalize_string b"
  shows "title_similarity a b = title_similarity b a \<and>
         title_similarity a b = (if normalize_string a = [] \<or> normalize_string b = [] then 0 else 1)"
  using assms by (auto simp: title_similarity_def ratio_refl)

text \<open>An instance: two titles with the same normalised form.\<close>

theorem title_similarity_commutes_witness:
  "title_similarity (Some ''A b'') (Some ''a, b'') = title_similarity (Some ''a, b'') (Some ''A b'') \<and>
   title_similarity (Some ''A b'') (Some ''a, b'') = 1"
proof -
  have e: "normalize_string (Some ''A b'') = normalize_string (Some ''a, b'')" by code_simp
  have n: "normalize_string (Some ''A b'') \<noteq> []" by code_simp
  have "normalize_string (Some ''A b'') = [] \<or> normalize_string (Some ''a, b'') = [] \<or>
        normalize_string (Some ''A b'') = normalize_string (Some ''a, b'')" using e by blast
  from title_similarity_commutes[OF this] e n show ?thesis by simp
qed

text \<open>
  C6 as stated fails: the score of \<open>tide\<close> against \<open>diet\<close> is 1/4 and the score of \<open>diet\<close>
  against \<open>tide\<close> is 1/2.
\<close>

theorem tide_diet_counterexample:
  "title_similarity (Some ''tide'') (Some ''diet'') \<noteq> title_similarity (Some ''diet'') (Some ''tide'')"
  by code_simp

subsection \<open>C7: the stricter bar without authors\<close>



subsection \<open>C8: the structural match\<close>

text \<open>
  C8 as amended. For every citation with an extracted title, the resolver tests
  case-insensitive containment in both directions against the higher-priority pool only,
  and resolves the citation to the document of the first row there that passes the test
  and whose paper number is a digit string present in the PDF map. The secondary pool
  never yields a match: with any secondary pool the result is the result with an empty
  one, unless scanning it raises.
\<close>

theorem structural_match_first_row:
  assumes "\<forall>r\<in>set pre. check_row st pdf r = Inr None"
      and "row_get row ''Title'' [] = Some t"
      and "contains (lower t) (lower st) \<or> contains (lower st) (lower t)"
      and "row_get row ''Paper Number'' [] = Some cell" "isdigit (strip cell)"
      and "py_int (strip cell) = Inr n" "map_of pdf n = Some f" "f \<noteq> []"
  shows "resolve_reference (Some st) (pre @ row # post) csv pdf =
           Inr (Some (''paper_for_full_text_review/'' @ f)) \<and>
         (resolve_reference (Some st) inc csv pdf = resolve_reference (Some st) inc [] pdf \<or>
          resolve_reference (Some st) inc csv pdf = Inl AttributeError)"
  using resolve_first_hit[OF assms(1) check_row_hit[OF assms(2-7)] assms(8)]
    resolve_csv_irrelevant[of "Some st" inc csv pdf] by simp

text \<open>An instance: the second row of the higher-priority pool contains the title.\<close>

theorem structural_match_first_row_witness:
  "resolve_reference (Some ''Drift Detection'')
     ([[''Title'' \<mapsto> Some ''Other'', ''Paper Number'' \<mapsto> Some ''2'']] @
      [''Title'' \<mapsto> Some ''Multi-Cloud drift detection Techniques'', ''Paper Number'' \<mapsto> Some '' 7 ''] # [])
     [[''Paper Title'' \<mapsto> Some ''Drift Detection'']]
     [(2, ''2-other.pdf''), (7, ''7-multi.pdf'')] =
   Inr (Some (''paper_for_full_text_review/'' @ ''7-multi.pdf''))"
proof -
  let ?pdf = "[(2, ''2-other.pdf''), (7 :: nat, ''7-multi.pdf'')]"
  let ?r0 = "[''Title'' \<mapsto> Some ''Other'', ''Paper Number'' \<mapsto> Some ''2'']"
  let ?row = "[''Title'' \<mapsto> Some ''Multi-Cloud drift detection Techniques'', ''Paper Number'' \<mapsto> Some '' 7 '']"
  have 1: "\<forall>r\<in>set [?r0]. check_row ''Drift Detection'' ?pdf r = Inr None" by code_simp
  have 2: "row_get ?row ''Title'' [] = Some ''Multi-Cloud drift detection Techniques''" by code_simp
  have 3: "contains (lower ''Multi-Cloud drift detection Techniques'') (lower ''Drift Detection'') \<or>
           contains (lower ''Drift Detection'') (lower ''Multi-Cloud drift detection Techniques'')"
    by code_simp
  have 4: "row_get ?row ''Paper Number'' [] = Some '' 7 ''" by code_simp
  have 5: "isdigit (strip '' 7 '')" by code_simp
  have 6: "py_int (strip '' 7 '') = Inr 7" by code_simp
  have 7: "map_of ?pdf 7 = Some ''7-multi.pdf''" by simp
  have 8: "''7-multi.pdf'' \<noteq> []" by simp
  show ?thesis using structural_match_first_row[OF 1 2 3 4 5 6 7 8, of "[]"] by blast
qed

text \<open>
  C8 as stated fails: the title \<open>Foo\<close> and the title of the only secondary-pool row contain
  one another, no higher-priority row matches, and the citation stays unresolved.
\<close>

theorem secondary_pool_counterexample:
  "contains (lower ''Foo'') (lower ''Foo'') \<and>
   included_loop ''Foo'' [(1, ''1-bar.pdf'')] [] = Inr None \<and>
   resolve_reference (Some ''Foo'') []
     [[''Paper Title'' \<mapsto> Some ''Foo'', ''Paper Number'' \<mapsto> Some ''1'']]
     [(1, ''1-bar.pdf'')] = Inr None"
  by code_simp

subsection \<open>C9: the token-overlap fallback\<close>



subsection \<open>C10: rows of the higher-priority pool without a title\<close>



end
